theory Spec2Isabelle
  imports Main "HOL-Library.AList" "HOL-Library.Char_ord" "HOL-Library.List_Lexorder"
begin

section \<open>Python values and exceptions\<close>

text \<open>
  The values a RunData field can hold after \<open>json.loads\<close>: None, bool, int, str, list and
  dict with str keys. A str is a \<open>string\<close> (code points 0..255). A dict is the list of
  its items in insertion order; a well-formed dict has no key twice. Floats are not part
  of the model.
\<close>

datatype pyval =
    PNone
  | PBool bool
  | PInt int
  | PStr string
  | PList "pyval list"
  | PDict "(string \<times> pyval) list"

text \<open>
  The exceptions the module can raise. \<open>Unmodelled\<close> is not a Python exception: it is the
  outcome of the model on a JSON text that holds a float literal or a \<open>\uXXXX\<close> escape
  above code point 255, where the model says nothing about the program.
  \<open>OutOfFuel\<close> is the outcome of the parser when the bound on its recursion is used
  up, which \<open>json_loads\<close> never is (lemma \<open>json_loads_fuel\<close>). The recursion limit of
  the interpreter is not modelled.
\<close>

datatype error =
    ValueError
  | TypeError
  | IOError
  | OSError
  | OverflowError
  | Unmodelled
  | OutOfFuel

abbreviation DQUOTE :: char where "DQUOTE \<equiv> CHR 0x22"
abbreviation BACKSLASH :: char where "BACKSLASH \<equiv> CHR 0x5C"
abbreviation NEWLINE :: char where "NEWLINE \<equiv> CHR 0x0A"

section \<open>json.dumps\<close>

text \<open>\<open>'0123456789abcdef'[n]\<close>, the digit of \<open>format(n, 'x')\<close>.\<close>

definition hexdigit :: "nat \<Rightarrow> char" where
  "hexdigit n = ''0123456789abcdef'' ! (n mod 16)"

text \<open>\<open>'{0:04x}'.format(n)\<close> for \<open>n < 0x10000\<close>.\<close>

definition hex4 :: "nat \<Rightarrow> string" where
  "hex4 n = [hexdigit (n div 4096), hexdigit (n div 256), hexdigit (n div 16), hexdigit n]"

text \<open>\<open>ESCAPE_DCT\<close> of json.encoder: the characters with a short escape.\<close>

definition ESCAPE_DCT :: "char \<Rightarrow> string option" where
  "ESCAPE_DCT c =
     (if c = BACKSLASH then Some [BACKSLASH, BACKSLASH]
      else if c = DQUOTE then Some [BACKSLASH, DQUOTE]
      else if c = CHR 0x08 then Some [BACKSLASH, CHR ''b'']
      else if c = CHR 0x0C then Some [BACKSLASH, CHR ''f'']
      else if c = CHR 0x0A then Some [BACKSLASH, CHR ''n'']
      else if c = CHR 0x0D then Some [BACKSLASH, CHR ''r'']
      else if c = CHR 0x09 then Some [BACKSLASH, CHR ''t'']
      else None)"

text \<open>
  The pattern \<open>ESCAPE_ASCII = ([\\"]|[^\ -~])\<close>: a backslash, a double quote, or any
  character outside the printable ASCII range.
\<close>

definition ESCAPE_ASCII :: "char \<Rightarrow> bool" where
  "ESCAPE_ASCII c \<longleftrightarrow>
     c = BACKSLASH \<or> c = DQUOTE \<or> \<not> (0x20 \<le> (of_char c :: nat) \<and> (of_char c :: nat) \<le> 0x7E)"

text \<open>The function \<open>replace\<close> of \<open>encode_basestring_ascii\<close>, on one matched character.\<close>

definition replace :: "char \<Rightarrow> string" where
  "replace c =
     (case ESCAPE_DCT c of
        Some s \<Rightarrow> s
      | None \<Rightarrow> [BACKSLASH, CHR ''u''] @ hex4 (of_char c))"

definition encode_basestring_ascii :: "string \<Rightarrow> string" where
  "encode_basestring_ascii s =
     [DQUOTE] @ concat (map (\<lambda>c. if ESCAPE_ASCII c then replace c else [c]) s) @ [DQUOTE]"

text \<open>\<open>int.__repr__\<close>: decimal digits, most significant first, with a minus sign.\<close>

definition digit_char :: "nat \<Rightarrow> char" where
  "digit_char n = ''0123456789'' ! (n mod 10)"

function digits :: "nat \<Rightarrow> string" where
  "digits n = (if n < 10 then [digit_char n] else digits (n div 10) @ [digit_char (n mod 10)])"
  by pat_completeness auto
termination
  by (relation "measure id") auto

declare digits.simps [simp del]

definition int_repr :: "int \<Rightarrow> string" where
  "int_repr i = (if i < 0 then CHR ''-'' # digits (nat (- i)) else digits (nat i))"

text \<open>\<open>sep.join(xs)\<close>.\<close>

fun join :: "string \<Rightarrow> string list \<Rightarrow> string" where
  "join sep [] = []"
| "join sep [x] = x"
| "join sep (x # y # ys) = x @ sep @ join sep (y # ys)"

text \<open>
  The options of \<open>JSONEncoder\<close> that \<open>AsJson\<close> sets; \<open>indent\<close> is the number of spaces
  per level (the case \<open>indent is not None\<close>).
\<close>

record JSONEncoder =
  sort_keys :: bool
  indent :: nat
  item_separator :: string
  key_separator :: string

text \<open>\<open>'\n' + ' ' * (indent * level)\<close>.\<close>

definition newline_indent :: "JSONEncoder \<Rightarrow> nat \<Rightarrow> string" where
  "newline_indent enc level = NEWLINE # replicate (indent enc * level) (CHR '' '')"

text \<open>\<open>sorted(dct.items())\<close> under \<open>sort_keys\<close>, else \<open>dct.items()\<close>.\<close>

definition dict_items :: "JSONEncoder \<Rightarrow> (string \<times> pyval) list \<Rightarrow> (string \<times> pyval) list" where
  "dict_items enc d = (if sort_keys enc then sort_key fst d else d)"

lemma dict_items_set [simp]: "set (dict_items enc d) = set d"
  by (simp add: dict_items_def)

lemma size_dict_value:
  "(k, v) \<in> set d \<Longrightarrow> size v < Suc (size_list (size_prod (\<lambda>_. 0) size) d)"
  by (induction d) auto

text \<open>
  \<open>_iterencode\<close>, \<open>_iterencode_list\<close> and \<open>_iterencode_dict\<close> of json.encoder, with the
  chunks already joined; \<open>level\<close> is \<open>_current_indent_level\<close>.
\<close>

function iterencode :: "JSONEncoder \<Rightarrow> nat \<Rightarrow> pyval \<Rightarrow> string" where
  "iterencode enc level PNone = ''null''"
| "iterencode enc level (PBool b) = (if b then ''true'' else ''false'')"
| "iterencode enc level (PInt i) = int_repr i"
| "iterencode enc level (PStr s) = encode_basestring_ascii s"
| "iterencode enc level (PList lst) =
     (if lst = [] then ''[]''
      else ''['' @ newline_indent enc (Suc level)
        @ join (item_separator enc @ newline_indent enc (Suc level))
            (map (iterencode enc (Suc level)) lst)
        @ newline_indent enc level @ '']'')"
| "iterencode enc level (PDict dct) =
     (if dct = [] then ''{}''
      else ''{'' @ newline_indent enc (Suc level)
        @ join (item_separator enc @ newline_indent enc (Suc level))
            (map (\<lambda>kv. encode_basestring_ascii (fst kv) @ key_separator enc
                         @ iterencode enc (Suc level) (snd kv))
               (dict_items enc dct))
        @ newline_indent enc level @ ''}'')"
  by pat_completeness auto
termination
proof (relation "measure (\<lambda>(enc, level, v). size v)", goal_cases)
  case 1
  show ?case by simp
next
  case (2 enc level lst x)
  then show ?case by (simp add: less_Suc_eq_le size_list_estimation')
next
  case (3 enc level dct kv)
  then have "(fst kv, snd kv) \<in> set dct" by simp
  from size_dict_value [OF this] show ?case by simp
qed

definition json_dumps :: "JSONEncoder \<Rightarrow> pyval \<Rightarrow> string" where
  "json_dumps enc obj = iterencode enc 0 obj"

section \<open>json.loads\<close>

text \<open>\<open>WHITESPACE = [ \t\n\r]*\<close>; \<open>skip_ws s\<close> is \<open>s[WHITESPACE.match(s, 0).end():]\<close>.\<close>

definition is_ws :: "char \<Rightarrow> bool" where
  "is_ws c \<longleftrightarrow> c = CHR '' '' \<or> c = CHR 0x09 \<or> c = CHR 0x0A \<or> c = CHR 0x0D"

definition skip_ws :: "string \<Rightarrow> string" where
  "skip_ws s = dropWhile is_ws s"

definition is_digit :: "char \<Rightarrow> bool" where
  "is_digit c \<longleftrightarrow> 0x30 \<le> (of_char c :: nat) \<and> (of_char c :: nat) \<le> 0x39"

definition digit_val :: "char \<Rightarrow> nat" where
  "digit_val c = of_char c - 0x30"

text \<open>The value of one hexadecimal digit, in either case.\<close>

definition hexval :: "char \<Rightarrow> nat option" where
  "hexval c =
     (let n = (of_char c :: nat) in
      if 0x30 \<le> n \<and> n \<le> 0x39 then Some (n - 0x30)
      else if 0x61 \<le> n \<and> n \<le> 0x66 then Some (n - 0x57)
      else if 0x41 \<le> n \<and> n \<le> 0x46 then Some (n - 0x37)
      else None)"

text \<open>\<open>_decode_uXXXX\<close>: the four hexadecimal digits after \<open>\u\<close>.\<close>

definition decode_uXXXX :: "string \<Rightarrow> nat option" where
  "decode_uXXXX s =
     (case s of
        a # b # c # d # _ \<Rightarrow>
          (case (hexval a, hexval b, hexval c, hexval d) of
             (Some w, Some x, Some y, Some z) \<Rightarrow> Some (((w * 16 + x) * 16 + y) * 16 + z)
           | _ \<Rightarrow> None)
      | _ \<Rightarrow> None)"

text \<open>The table \<open>BACKSLASH\<close> of json.decoder: the character after a backslash.\<close>

definition BACKSLASH_DCT :: "char \<Rightarrow> char option" where
  "BACKSLASH_DCT c =
     (if c = DQUOTE then Some DQUOTE
      else if c = BACKSLASH then Some BACKSLASH
      else if c = CHR ''/'' then Some (CHR ''/'')
      else if c = CHR ''b'' then Some (CHR 0x08)
      else if c = CHR ''f'' then Some (CHR 0x0C)
      else if c = CHR ''n'' then Some (CHR 0x0A)
      else if c = CHR ''r'' then Some (CHR 0x0D)
      else if c = CHR ''t'' then Some (CHR 0x09)
      else None)"

definition cons_result :: "char \<Rightarrow> error + (string \<times> string) \<Rightarrow> error + (string \<times> string)" where
  "cons_result c r = (case r of Inl e \<Rightarrow> Inl e | Inr (str, rest) \<Rightarrow> Inr (c # str, rest))"

text \<open>
  \<open>scanstring(s, end, strict=True)\<close> on the text after the opening quote: the decoded
  string and the text after the closing quote. An unterminated string, a control
  character, and a bad escape raise ValueError.
\<close>

fun scanstring :: "string \<Rightarrow> error + (string \<times> string)" where
  "scanstring [] = Inl ValueError"
| "scanstring (c # s) =
     (if c = DQUOTE then Inr ([], s)
      else if c = BACKSLASH then
        (case s of
           [] \<Rightarrow> Inl ValueError
         | esc # s' \<Rightarrow>
             if esc = CHR ''u'' then
               (case decode_uXXXX s' of
                  None \<Rightarrow> Inl ValueError
                | Some uni \<Rightarrow>
                    if uni < 256 then cons_result (char_of uni) (scanstring (drop 4 s'))
                    else Inl Unmodelled)
             else
               (case BACKSLASH_DCT esc of
                  None \<Rightarrow> Inl ValueError
                | Some ch \<Rightarrow> cons_result ch (scanstring s')))
      else if (of_char c :: nat) < 0x20 then Inl ValueError
      else cons_result c (scanstring s))"

text \<open>
  \<open>NUMBER_RE = (-?(?:0|[1-9]\d*))(\.\d+)?([eE][-+]?\d+)?\<close>. \<open>has_frac\<close> and \<open>has_exp\<close>
  say whether the second and the third group match at the text after the integer part;
  then the number is a float.
\<close>

definition has_frac :: "string \<Rightarrow> bool" where
  "has_frac s = (case s of d # c # _ \<Rightarrow> d = CHR ''.'' \<and> is_digit c | _ \<Rightarrow> False)"

definition has_exp :: "string \<Rightarrow> bool" where
  "has_exp s =
     (case s of
        e # r \<Rightarrow>
          (e = CHR ''e'' \<or> e = CHR ''E'') \<and>
          (case r of
             c # r' \<Rightarrow>
               if c = CHR ''+'' \<or> c = CHR ''-''
               then (case r' of d # _ \<Rightarrow> is_digit d | [] \<Rightarrow> False)
               else is_digit c
           | [] \<Rightarrow> False)
      | [] \<Rightarrow> False)"

text \<open>\<open>int(integer)\<close> on a string of decimal digits.\<close>

definition int_of_digits :: "string \<Rightarrow> nat" where
  "int_of_digits ds = foldl (\<lambda>a c. 10 * a + digit_val c) 0 ds"

definition finish_number :: "bool \<Rightarrow> string \<Rightarrow> string \<Rightarrow> error + (pyval \<times> string)" where
  "finish_number neg ds rest =
     (if has_frac rest \<or> has_exp rest then Inl Unmodelled
      else Inr (PInt (if neg then - int (int_of_digits ds) else int (int_of_digits ds)), rest))"

definition match_number :: "string \<Rightarrow> error + (pyval \<times> string)" where
  "match_number s =
     (let neg = (s \<noteq> [] \<and> hd s = CHR ''-'');
          s1 = (if neg then tl s else s)
      in case s1 of
           [] \<Rightarrow> Inl ValueError
         | c # r \<Rightarrow>
             if c = CHR ''0'' then finish_number neg [c] r
             else if is_digit c then
               finish_number neg (takeWhile is_digit s1) (dropWhile is_digit s1)
             else Inl ValueError)"

text \<open>
  \<open>dict(pairs)\<close>: a later pair replaces the value of an equal earlier key, which keeps
  its place.
\<close>

definition dict :: "(string \<times> pyval) list \<Rightarrow> (string \<times> pyval) list" where
  "dict pairs = foldl (\<lambda>d kv. AList.update (fst kv) (snd kv) d) [] pairs"

text \<open>
  \<open>scan_once\<close>, \<open>JSONObject\<close> and \<open>JSONArray\<close> of json.scanner and json.decoder. Each takes
  the text from the current position on and returns the value with the text left.
  \<open>JSONObject\<close> is the \<open>while\<close> loop over the pairs, entered after the opening quote of a
  key; \<open>JSONArray\<close> is the loop over the values, entered at the start of a value. The
  first argument bounds the number of nested calls and loop rounds.
\<close>

fun scan_once :: "nat \<Rightarrow> string \<Rightarrow> error + (pyval \<times> string)"
  and JSONObject :: "nat \<Rightarrow> string \<Rightarrow> error + ((string \<times> pyval) list \<times> string)"
  and JSONArray :: "nat \<Rightarrow> string \<Rightarrow> error + (pyval list \<times> string)"
where
  "scan_once 0 s = Inl OutOfFuel"
| "scan_once (Suc n) [] = Inl ValueError"
| "scan_once (Suc n) (c # s) =
     (if c = DQUOTE then
        (case scanstring s of
           Inl e \<Rightarrow> Inl e
         | Inr (str, r) \<Rightarrow> Inr (PStr str, r))
      else if c = CHR 0x7B then
        (case skip_ws s of
           [] \<Rightarrow> Inl ValueError
         | d # r \<Rightarrow>
             if d = CHR 0x7D then Inr (PDict [], r)
             else if d = DQUOTE then
               (case JSONObject n r of
                  Inl e \<Rightarrow> Inl e
                | Inr (pairs, r') \<Rightarrow> Inr (PDict (dict pairs), r'))
             else Inl ValueError)
      else if c = CHR 0x5B then
        (case skip_ws s of
           [] \<Rightarrow> Inl ValueError
         | d # r \<Rightarrow>
             if d = CHR 0x5D then Inr (PList [], r)
             else
               (case JSONArray n (d # r) of
                  Inl e \<Rightarrow> Inl e
                | Inr (values, r') \<Rightarrow> Inr (PList values, r')))
      else if c = CHR ''n'' \<and> take 3 s = ''ull'' then Inr (PNone, drop 3 s)
      else if c = CHR ''t'' \<and> take 3 s = ''rue'' then Inr (PBool True, drop 3 s)
      else if c = CHR ''f'' \<and> take 4 s = ''alse'' then Inr (PBool False, drop 4 s)
      else if c = CHR ''N'' \<and> take 2 s = ''aN'' then Inl Unmodelled
      else if c = CHR ''I'' \<and> take 7 s = ''nfinity'' then Inl Unmodelled
      else if c = CHR ''-'' \<and> take 8 s = ''Infinity'' then Inl Unmodelled
      else match_number (c # s))"
| "JSONObject 0 s = Inl OutOfFuel"
| "JSONObject (Suc n) s =
     (case scanstring s of
        Inl e \<Rightarrow> Inl e
      | Inr (key, s1) \<Rightarrow>
          (case skip_ws s1 of
             [] \<Rightarrow> Inl ValueError
           | c # s2 \<Rightarrow>
               if c \<noteq> CHR '':'' then Inl ValueError
               else
                 (case scan_once n (skip_ws s2) of
                    Inl e \<Rightarrow> Inl e
                  | Inr (v, s3) \<Rightarrow>
                      (case skip_ws s3 of
                         [] \<Rightarrow> Inl ValueError
                       | d # s4 \<Rightarrow>
                           if d = CHR 0x7D then Inr ([(key, v)], s4)
                           else if d \<noteq> CHR '','' then Inl ValueError
                           else
                             (case skip_ws s4 of
                                [] \<Rightarrow> Inl ValueError
                              | q # s5 \<Rightarrow>
                                  if q \<noteq> DQUOTE then Inl ValueError
                                  else
                                    (case JSONObject n s5 of
                                       Inl e \<Rightarrow> Inl e
                                     | Inr (pairs, s6) \<Rightarrow> Inr ((key, v) # pairs, s6)))))))"
| "JSONArray 0 s = Inl OutOfFuel"
| "JSONArray (Suc n) s =
     (case scan_once n s of
        Inl e \<Rightarrow> Inl e
      | Inr (v, s1) \<Rightarrow>
          (case skip_ws s1 of
             [] \<Rightarrow> Inl ValueError
           | d # s2 \<Rightarrow>
               if d = CHR 0x5D then Inr ([v], s2)
               else if d \<noteq> CHR '','' then Inl ValueError
               else
                 (case JSONArray n (skip_ws s2) of
                    Inl e \<Rightarrow> Inl e
                  | Inr (values, s3) \<Rightarrow> Inr (v # values, s3))))"

text \<open>
  \<open>json.loads(s)\<close>, that is \<open>JSONDecoder().decode(s)\<close>: leading whitespace, one value,
  trailing whitespace, and nothing else (``Extra data'').
\<close>

definition json_loads :: "string \<Rightarrow> error + pyval" where
  "json_loads s =
     (case scan_once (2 * length s + 1) (skip_ws s) of
        Inl e \<Rightarrow> Inl e
      | Inr (obj, rest) \<Rightarrow> if skip_ws rest = [] then Inr obj else Inl ValueError)"

section \<open>Files, directories and processes\<close>

text \<open>
  The file system as the module sees it: what each path names, and the paths on which
  the operating system refuses \<open>open\<close> and \<open>os.listdir\<close> (no permission, missing parent
  directory). A directory holds the names that \<open>os.listdir\<close> returns, in the order in
  which it returns them. Writing a file does not touch the listings.
\<close>

datatype node = File string | Dir "string list"

record filesystem =
  nodes :: "string \<Rightarrow> node option"
  refused :: "string set"

text \<open>\<open>open(filename).read()\<close>.\<close>

definition read_file :: "filesystem \<Rightarrow> string \<Rightarrow> error + string" where
  "read_file fs filename =
     (case nodes fs filename of
        Some (File data) \<Rightarrow> if filename \<in> refused fs then Inl IOError else Inr data
      | _ \<Rightarrow> Inl IOError)"


text \<open>\<open>os.path.join(a, b)\<close> of posixpath, for two strings.\<close>

definition os_path_join :: "string \<Rightarrow> string \<Rightarrow> string" where
  "os_path_join a b =
     (if b \<noteq> [] \<and> hd b = CHR ''/'' then b
      else if a = [] \<or> last a = CHR ''/'' then a @ b
      else a @ ''/'' @ b)"

definition os_path_isfile :: "filesystem \<Rightarrow> string \<Rightarrow> bool" where
  "os_path_isfile fs path = (case nodes fs path of Some (File _) \<Rightarrow> True | _ \<Rightarrow> False)"

definition os_listdir :: "filesystem \<Rightarrow> string \<Rightarrow> error + string list" where
  "os_listdir fs path =
     (case nodes fs path of
        Some (Dir names) \<Rightarrow> if path \<in> refused fs then Inl OSError else Inr names
      | _ \<Rightarrow> Inl OSError)"

text \<open>
  The processes: the ids that name an existing process, and those among them that the
  caller may signal. \<open>os_kill_0 ps pid\<close> is \<open>os.kill(pid, 0)\<close>: TypeError when \<open>pid\<close> is not
  an integer (a bool is one), OverflowError when it does not fit the C int \<open>pid_t\<close>,
  OSError when the system call fails with ESRCH (no such process) or with EPERM.
\<close>

record processes =
  existing :: "int set"
  permitted :: "int set"

definition kill_0 :: "processes \<Rightarrow> int \<Rightarrow> error + unit" where
  "kill_0 ps n =
     (if n < - (2 ^ 31) \<or> 2 ^ 31 \<le> n then Inl OverflowError
      else if n \<notin> existing ps then Inl OSError
      else if n \<notin> permitted ps then Inl OSError
      else Inr ())"

definition os_kill_0 :: "processes \<Rightarrow> pyval \<Rightarrow> error + unit" where
  "os_kill_0 ps pid =
     (case pid of
        PInt n \<Rightarrow> kill_0 ps n
      | PBool b \<Rightarrow> kill_0 ps (if b then 1 else 0)
      | _ \<Rightarrow> Inl TypeError)"

section \<open>rundata.py\<close>

text \<open>The namedtuple \<open>RunData\<close>; a field holds any value.\<close>

record RunData =
  station_name :: pyval
  cell_count :: pyval
  test_type :: pyval
  test_version :: pyval
  http_host :: pyval
  http_port :: pyval
  pid :: pyval

definition RunData_fields :: "string list" where
  "RunData_fields =
     [''station_name'', ''cell_count'', ''test_type'', ''test_version'',
      ''http_host'', ''http_port'', ''pid'']"

text \<open>\<open>self._asdict()\<close>: the fields in the order of their declaration.\<close>

definition asdict :: "RunData \<Rightarrow> (string \<times> pyval) list" where
  "asdict r =
     [(''station_name'', station_name r), (''cell_count'', cell_count r),
      (''test_type'', test_type r), (''test_version'', test_version r),
      (''http_host'', http_host r), (''http_port'', http_port r), (''pid'', pid r)]"

text \<open>
  \<open>cls(**d)\<close>: TypeError when \<open>d\<close> is not a mapping, when a key is not a field name, and
  when a field has no key.
\<close>

definition RunData_new :: "pyval \<Rightarrow> error + RunData" where
  "RunData_new d =
     (case d of
        PDict kwargs \<Rightarrow>
          if list_ex (\<lambda>k. k \<notin> set RunData_fields) (map fst kwargs) then Inl TypeError
          else
            (case map_of kwargs ''station_name'' of None \<Rightarrow> Inl TypeError | Some a \<Rightarrow>
             case map_of kwargs ''cell_count'' of None \<Rightarrow> Inl TypeError | Some b \<Rightarrow>
             case map_of kwargs ''test_type'' of None \<Rightarrow> Inl TypeError | Some c \<Rightarrow>
             case map_of kwargs ''test_version'' of None \<Rightarrow> Inl TypeError | Some d \<Rightarrow>
             case map_of kwargs ''http_host'' of None \<Rightarrow> Inl TypeError | Some e \<Rightarrow>
             case map_of kwargs ''http_port'' of None \<Rightarrow> Inl TypeError | Some f \<Rightarrow>
             case map_of kwargs ''pid'' of None \<Rightarrow> Inl TypeError | Some g \<Rightarrow>
               Inr \<lparr>station_name = a, cell_count = b, test_type = c, test_version = d,
                    http_host = e, http_port = f, pid = g\<rparr>)
      | _ \<Rightarrow> Inl TypeError)"

text \<open>
  Lines 40 and 41 of \<open>FromFile\<close>, on the text read: \<open>d = json.loads(data)\<close> and
  \<open>return cls(**d)\<close>.
\<close>

definition decode :: "string \<Rightarrow> error + RunData" where
  "decode data = (case json_loads data of Inl e \<Rightarrow> Inl e | Inr d \<Rightarrow> RunData_new d)"

definition FromFile :: "filesystem \<Rightarrow> string \<Rightarrow> error + RunData" where
  "FromFile fs filename =
     (case read_file fs filename of Inl e \<Rightarrow> Inl e | Inr data \<Rightarrow> decode data)"

text \<open>The encoder of \<open>json.dumps(d, sort_keys=True, indent=4, separators=(',', ': '))\<close>.\<close>

definition AsJson_encoder :: JSONEncoder where
  "AsJson_encoder =
     \<lparr>sort_keys = True, indent = 4, item_separator = '','', key_separator = '': ''\<rparr>"

definition AsJson :: "RunData \<Rightarrow> string" where
  "AsJson r =
     (let d = asdict r;
          d = AList.update ''http_host'' (http_host r) d
      in json_dumps AsJson_encoder (PDict d))"


text \<open>\<open>IsAlive\<close>: only OSError is caught.\<close>

definition IsAlive :: "processes \<Rightarrow> RunData \<Rightarrow> error + bool" where
  "IsAlive ps r =
     (case os_kill_0 ps (pid r) of
        Inl e \<Rightarrow> if e = OSError then Inr False else Inl e
      | Inr _ \<Rightarrow> Inr True)"

text \<open>
  The list comprehension of \<open>EnumerateRunDirectory\<close>: the paths are visited in order, and
  the first exception ends the visit.
\<close>

fun load_files :: "filesystem \<Rightarrow> string list \<Rightarrow> error + RunData list" where
  "load_files fs [] = Inr []"
| "load_files fs (filepath # filepaths) =
     (if os_path_isfile fs filepath then
        (case FromFile fs filepath of
           Inl e \<Rightarrow> Inl e
         | Inr r \<Rightarrow>
             (case load_files fs filepaths of
                Inl e \<Rightarrow> Inl e
              | Inr rs \<Rightarrow> Inr (r # rs)))
      else load_files fs filepaths)"

definition EnumerateRunDirectory :: "filesystem \<Rightarrow> string \<Rightarrow> error + RunData list" where
  "EnumerateRunDirectory fs directory =
     (case os_listdir fs directory of
        Inl e \<Rightarrow> Inl e
      | Inr filenames \<Rightarrow> load_files fs (map (os_path_join directory) filenames))"

section \<open>Notions used in the statements\<close>

text \<open>\<open>AsJson\<close> with line 59, the reassignment of \<open>d['http_host']\<close>, removed.\<close>

definition AsJson_direct :: "RunData \<Rightarrow> string" where
  "AsJson_direct r = json_dumps AsJson_encoder (PDict (asdict r))"

text \<open>
  One line of the encoding: four spaces, the key in double quotes, a colon and a space,
  and the value as the encoder writes it one level deep.
\<close>

definition AsJson_line :: "string \<Rightarrow> pyval \<Rightarrow> string" where
  "AsJson_line key v =
     ''    '' @ [DQUOTE] @ key @ [DQUOTE] @ '': '' @ iterencode AsJson_encoder 1 v"

definition is_scalar :: "pyval \<Rightarrow> bool" where
  "is_scalar v = (case v of PList _ \<Rightarrow> False | PDict _ \<Rightarrow> False | _ \<Rightarrow> True)"


text \<open>
  The types of the fields in the format that the module docstring gives: strings for
  the station name, the test type, the test version and the host, numbers for the cell
  count, the port and the process id.
\<close>

definition well_typed :: "RunData \<Rightarrow> bool" where
  "well_typed r \<longleftrightarrow>
     (case (station_name r, cell_count r, test_type r, test_version r, http_host r,
            http_port r, pid r) of
        (PStr _, PInt _, PStr _, PStr _, PStr _, PInt _, PInt _) \<Rightarrow> True
      | _ \<Rightarrow> False)"



text \<open>\<open>FromFile\<close> returns a record.\<close>

definition loads_ok :: "filesystem \<Rightarrow> string \<Rightarrow> bool" where
  "loads_ok fs path = (case FromFile fs path of Inr _ \<Rightarrow> True | Inl _ \<Rightarrow> False)"

section \<open>Example data\<close>

definition record_a :: RunData where
  "record_a = \<lparr>station_name = PStr ''a'', cell_count = PInt 2, test_type = PStr ''t'',
     test_version = PStr ''v'', http_host = PStr ''localhost'', http_port = PInt 8080,
     pid = PInt 10\<rparr>"

definition record_b :: RunData where
  "record_b = \<lparr>station_name = PStr ''b'', cell_count = PInt 4, test_type = PStr ''t'',
     test_version = PStr ''v'', http_host = PStr ''localhost'', http_port = PInt 8081,
     pid = PInt 11\<rparr>"

definition record_init :: RunData where
  "record_init = \<lparr>station_name = PStr ''a'', cell_count = PInt 2, test_type = PStr ''t'',
     test_version = PStr ''v'', http_host = PStr ''localhost'', http_port = PInt 8080,
     pid = PInt 1\<rparr>"

definition text_a :: string where
  \<open>text_a = ''{"station_name": "a", "cell_count": 2, "test_type": "t", "test_version": "v", "http_host": "localhost", "http_port": 8080, "pid": 10}''\<close>

definition text_b :: string where
  \<open>text_b = ''{"pid": 11, "http_port": 8081, "http_host": "localhost", "test_version": "v", "test_type": "t", "cell_count": 4, "station_name": "b"}''\<close>

definition dict_b :: "(string \<times> pyval) list" where
  "dict_b =
     [(''pid'', PInt 11), (''http_port'', PInt 8081), (''http_host'', PStr ''localhost''),
      (''test_version'', PStr ''v''), (''test_type'', PStr ''t''), (''cell_count'', PInt 4),
      (''station_name'', PStr ''b'')]"

definition text_missing :: string where
  \<open>text_missing = ''{"station_name": "a", "cell_count": 2, "test_type": "t", "test_version": "v", "http_host": "localhost", "http_port": 8080}''\<close>

definition dict_missing :: "(string \<times> pyval) list" where
  "dict_missing =
     [(''station_name'', PStr ''a''), (''cell_count'', PInt 2), (''test_type'', PStr ''t''),
      (''test_version'', PStr ''v''), (''http_host'', PStr ''localhost''),
      (''http_port'', PInt 8080)]"

definition text_extra :: string where
  \<open>text_extra = ''{"station_name": "a", "cell_count": 2, "test_type": "t", "test_version": "v", "http_host": "localhost", "http_port": 8080, "pid": 10, "owner": "x"}''\<close>

definition dict_extra :: "(string \<times> pyval) list" where
  "dict_extra =
     [(''station_name'', PStr ''a''), (''cell_count'', PInt 2), (''test_type'', PStr ''t''),
      (''test_version'', PStr ''v''), (''http_host'', PStr ''localhost''),
      (''http_port'', PInt 8080), (''pid'', PInt 10), (''owner'', PStr ''x'')]"

definition text_malformed :: string where
  \<open>text_malformed = ''{"station_name": "a",''\<close>

definition text_array :: string where
  "text_array = ''[1, 2]''"

text \<open>
  A run directory whose listing gives \<open>b\<close> before \<open>a\<close>, with a child directory; one with
  a file that is not JSON; an empty one.
\<close>

definition directory_ba :: filesystem where
  "directory_ba =
     \<lparr>nodes = [''run'' \<mapsto> Dir [''b'', ''a'', ''not-a-file''],
               ''run/a'' \<mapsto> File text_a,
               ''run/b'' \<mapsto> File text_b,
               ''run/not-a-file'' \<mapsto> Dir []],
      refused = {}\<rparr>"

definition directory_bad :: filesystem where
  "directory_bad =
     \<lparr>nodes = [''run'' \<mapsto> Dir [''a'', ''bad''],
               ''run/a'' \<mapsto> File text_a,
               ''run/bad'' \<mapsto> File text_malformed],
      refused = {}\<rparr>"


text \<open>Process 1 exists and belongs to another user; process 4242 is the caller's.\<close>

definition init_of_root :: processes where
  "init_of_root = \<lparr>existing = {1, 4242}, permitted = {4242}\<rparr>"

section \<open>Notions of the round trip\<close>



text \<open>
  The value with the items of every dict in ascending order of the keys: what the
  parser builds from the sorted text.
\<close>

function sorted_value :: "pyval \<Rightarrow> pyval" where
  "sorted_value PNone = PNone"
| "sorted_value (PBool b) = PBool b"
| "sorted_value (PInt i) = PInt i"
| "sorted_value (PStr s) = PStr s"
| "sorted_value (PList lst) = PList (map sorted_value lst)"
| "sorted_value (PDict dct) =
     PDict (map (\<lambda>kv. (fst kv, sorted_value (snd kv))) (sort_key fst dct))"
  by pat_completeness auto
termination
proof (relation "measure size", goal_cases)
  case 1
  show ?case by simp
next
  case (2 lst x)
  then show ?case by (simp add: less_Suc_eq_le size_list_estimation')
next
  case (3 dct kv)
  then have "(fst kv, snd kv) \<in> set dct" by simp
  from size_dict_value [OF this] show ?case by simp
qed

definition sorted_record :: "RunData \<Rightarrow> RunData" where
  "sorted_record r =
     \<lparr>station_name = sorted_value (station_name r), cell_count = sorted_value (cell_count r),
      test_type = sorted_value (test_type r), test_version = sorted_value (test_version r),
      http_host = sorted_value (http_host r), http_port = sorted_value (http_port r),
      pid = sorted_value (pid r)\<rparr>"

text \<open>
  The text that follows a value in the output of the encoder: nothing, a comma or a
  newline.
\<close>

definition value_end :: "string \<Rightarrow> bool" where
  "value_end rest \<longleftrightarrow> (case rest of [] \<Rightarrow> True | c # _ \<Rightarrow> c = CHR '','' \<or> c = NEWLINE)"


abbreviation sep :: "nat \<Rightarrow> string" where
  "sep level \<equiv> CHR '','' # newline_indent AsJson_encoder level"






section \<open>The encoding\<close>

lemma replicate_4: "replicate 4 c = [c, c, c, c]"
  by (simp add: numeral_eq_Suc)

lemma AsJson_layout:
  "AsJson r =
     ''{'' @ [NEWLINE]
       @ join ('','' @ [NEWLINE])
           (map (\<lambda>kv. AsJson_line (fst kv) (snd kv))
              [(''cell_count'', cell_count r), (''http_host'', http_host r),
               (''http_port'', http_port r), (''pid'', pid r),
               (''station_name'', station_name r), (''test_type'', test_type r),
               (''test_version'', test_version r)])
       @ [NEWLINE] @ ''}''"
  by (simp add: AsJson_def json_dumps_def dict_items_def asdict_def AsJson_encoder_def
      newline_indent_def AsJson_line_def encode_basestring_ascii_def ESCAPE_ASCII_def replicate_4)

lemma ESCAPE_DCT_cases:
  "ESCAPE_DCT c = Some s \<Longrightarrow>
     (c = BACKSLASH \<and> s = [BACKSLASH, BACKSLASH]) \<or> (c = DQUOTE \<and> s = [BACKSLASH, DQUOTE]) \<or>
     (c = CHR 0x08 \<and> s = [BACKSLASH, CHR ''b'']) \<or> (c = CHR 0x0C \<and> s = [BACKSLASH, CHR ''f'']) \<or>
     (c = CHR 0x0A \<and> s = [BACKSLASH, CHR ''n'']) \<or> (c = CHR 0x0D \<and> s = [BACKSLASH, CHR ''r'']) \<or>
     (c = CHR 0x09 \<and> s = [BACKSLASH, CHR ''t''])"
  unfolding ESCAPE_DCT_def
  by (metis option.inject option.distinct(1))

lemma hexdigit_no_newline: "NEWLINE \<noteq> hexdigit k"
proof -
  have "list_all (\<lambda>k. NEWLINE \<noteq> hexdigit k) [0..<16]" by code_simp
  moreover have "k mod 16 \<in> set [0..<16]" by simp
  ultimately have "NEWLINE \<noteq> hexdigit (k mod 16)" unfolding list_all_iff by (rule bspec)
  then show ?thesis by (simp add: hexdigit_def)
qed

lemma replace_no_newline: "NEWLINE \<notin> set (replace c)"
proof (cases "ESCAPE_DCT c")
  case None
  then show ?thesis by (simp add: replace_def hex4_def hexdigit_no_newline)
next
  case (Some s)
  from ESCAPE_DCT_cases [OF this] show ?thesis using Some
    by (auto simp: replace_def)
qed

lemma encode_basestring_ascii_no_newline: "NEWLINE \<notin> set (encode_basestring_ascii s)"
  by (auto simp: encode_basestring_ascii_def replace_no_newline ESCAPE_ASCII_def)

lemma digit_char_no_newline: "NEWLINE \<noteq> digit_char k"
proof -
  have "list_all (\<lambda>k. NEWLINE \<noteq> digit_char k) [0..<10]" by code_simp
  moreover have "k mod 10 \<in> set [0..<10]" by simp
  ultimately have "NEWLINE \<noteq> digit_char (k mod 10)" unfolding list_all_iff by (rule bspec)
  then show ?thesis by (simp add: digit_char_def)
qed

lemma digits_no_newline: "NEWLINE \<notin> set (digits n)"
  by (induction n rule: digits.induct) (subst digits.simps, simp add: digit_char_no_newline)

lemma scalar_no_newline: "is_scalar v \<Longrightarrow> NEWLINE \<notin> set (iterencode enc level v)"
  by (cases v)
    (simp_all add: is_scalar_def encode_basestring_ascii_no_newline int_repr_def digits_no_newline)


section \<open>The constructor\<close>

lemma RunData_new_unexpected:
  assumes "k \<in> fst ` set kw" "k \<notin> set RunData_fields"
  shows "RunData_new (PDict kw) = Inl TypeError"
proof -
  from assms have "list_ex (\<lambda>k. k \<notin> set RunData_fields) (map fst kw)"
    by (auto simp: list_ex_iff)
  then show ?thesis by (simp add: RunData_new_def)
qed

lemma RunData_new_missing:
  assumes "f \<in> set RunData_fields" "f \<notin> fst ` set kw"
  shows "RunData_new (PDict kw) = Inl TypeError"
proof -
  from assms(2) have "map_of kw f = None" by (simp add: map_of_eq_None_iff)
  moreover from assms(1) have "f = ''station_name'' \<or> f = ''cell_count'' \<or> f = ''test_type'' \<or>
    f = ''test_version'' \<or> f = ''http_host'' \<or> f = ''http_port'' \<or> f = ''pid''"
    by (simp add: RunData_fields_def)
  ultimately show ?thesis
    by (elim disjE) (simp_all add: RunData_new_def split: option.splits)
qed

lemma RunData_new_exact:
  assumes "fst ` set kw = set RunData_fields"
  shows "\<exists>r. RunData_new (PDict kw) = Inr r \<and>
           list_all (\<lambda>f. map_of kw f = map_of (asdict r) f) RunData_fields"
proof -
  have no: "\<not> list_ex (\<lambda>k. k \<notin> set RunData_fields) (map fst kw)"
    using assms by (auto simp: list_ex_iff)
  have "\<forall>f\<in>set RunData_fields. map_of kw f \<noteq> None"
    using assms by (simp add: map_of_eq_None_iff)
  then obtain a b c d e f g where
    "map_of kw ''station_name'' = Some a" "map_of kw ''cell_count'' = Some b"
    "map_of kw ''test_type'' = Some c" "map_of kw ''test_version'' = Some d"
    "map_of kw ''http_host'' = Some e" "map_of kw ''http_port'' = Some f"
    "map_of kw ''pid'' = Some g"
    by (auto simp: RunData_fields_def)
  then show ?thesis using no
    by (simp add: RunData_new_def RunData_fields_def asdict_def)
qed

section \<open>The examples evaluated\<close>

lemma decode_text_a: "decode text_a = Inr record_a"
  by code_simp

lemma decode_text_b: "decode text_b = Inr record_b"
  by code_simp

lemma loads_text_malformed: "json_loads text_malformed = Inl ValueError"
  by code_simp

lemma decode_text_malformed: "decode text_malformed = Inl ValueError"
  by (simp add: decode_def loads_text_malformed)

lemma loads_examples:
  "json_loads text_array = Inr (PList [PInt 1, PInt 2])"
  "json_loads text_missing = Inr (PDict dict_missing)"
  "json_loads text_extra = Inr (PDict dict_extra)"
  "json_loads text_b = Inr (PDict dict_b)"
  by code_simp+

lemma join_run:
  "os_path_join ''run'' ''a'' = ''run/a''" "os_path_join ''run'' ''b'' = ''run/b''"
  "os_path_join ''run'' ''not-a-file'' = ''run/not-a-file''"
  "os_path_join ''run'' ''bad'' = ''run/bad''"
  by (simp_all add: os_path_join_def)

lemma fs_ba:
  "os_listdir directory_ba ''run'' = Inr [''b'', ''a'', ''not-a-file'']"
  "FromFile directory_ba ''run/a'' = Inr record_a"
  "FromFile directory_ba ''run/b'' = Inr record_b"
  "os_path_isfile directory_ba ''run/a''" "os_path_isfile directory_ba ''run/b''"
  "\<not> os_path_isfile directory_ba ''run/not-a-file''"
  by (simp_all add: directory_ba_def os_listdir_def FromFile_def read_file_def
      os_path_isfile_def decode_text_a decode_text_b)

lemma fs_bad:
  "os_listdir directory_bad ''run'' = Inr [''a'', ''bad'']"
  "FromFile directory_bad ''run/a'' = Inr record_a"
  "FromFile directory_bad ''run/bad'' = Inl ValueError"
  "os_path_isfile directory_bad ''run/a''" "os_path_isfile directory_bad ''run/bad''"
  by (simp_all add: directory_bad_def os_listdir_def FromFile_def read_file_def
      os_path_isfile_def decode_text_a decode_text_malformed)

section \<open>The directory scan\<close>

lemma load_files_all:
  assumes "\<forall>p\<in>set ps. os_path_isfile fs p \<longrightarrow> loads_ok fs p"
  shows "load_files fs ps =
           Inr (map (\<lambda>p. projr (FromFile fs p)) (filter (os_path_isfile fs) ps))"
  using assms
proof (induction ps)
  case Nil
  show ?case by simp
next
  case (Cons p ps)
  then have ih: "load_files fs ps =
      Inr (map (\<lambda>p. projr (FromFile fs p)) (filter (os_path_isfile fs) ps))"
    by simp
  show ?case
  proof (cases "os_path_isfile fs p")
    case True
    with Cons.prems obtain r where "FromFile fs p = Inr r"
      by (auto simp: loads_ok_def split: sum.splits)
    with True ih show ?thesis by simp
  next
    case False
    with ih show ?thesis by simp
  qed
qed

lemma load_files_first_failure:
  assumes "list_all (\<lambda>p. os_path_isfile fs p \<longrightarrow> loads_ok fs p) pre"
    and "os_path_isfile fs p" and "FromFile fs p = Inl e"
  shows "load_files fs (pre @ p # post) = Inl e"
  using assms
proof (induction pre)
  case Nil
  then show ?case by simp
next
  case (Cons q pre)
  then have ih: "load_files fs (pre @ p # post) = Inl e" by simp
  show ?case
  proof (cases "os_path_isfile fs q")
    case True
    with Cons.prems(1) obtain r where "FromFile fs q = Inr r"
      by (auto simp: loads_ok_def split: sum.splits)
    with True ih show ?thesis by simp
  next
    case False
    with ih show ?thesis by simp
  qed
qed

section \<open>The liveness probe\<close>

lemma IsAlive_int:
  assumes "pid r = PInt n" and "- (2 ^ 31) \<le> n" and "n < 2 ^ 31"
  shows "IsAlive ps r = Inr (n \<in> existing ps \<and> n \<in> permitted ps)"
  using assms by (simp add: IsAlive_def os_kill_0_def kill_0_def)

lemma IsAlive_no_OSError: "IsAlive ps r \<noteq> Inl OSError"
  by (simp add: IsAlive_def split: sum.splits)

section \<open>Strings\<close>










section \<open>Integers\<close>

lemma digit_char_all:
  "list_all (\<lambda>k. is_digit (digit_char k) \<and> digit_val (digit_char k) = k
     \<and> (digit_char k = CHR ''0'' \<longleftrightarrow> k = 0)) [0..<10]"
  by code_simp

lemma digit_char_lt10:
  assumes "k < 10"
  shows "is_digit (digit_char k)" "digit_val (digit_char k) = k"
    "digit_char k = CHR ''0'' \<longleftrightarrow> k = 0"
proof -
  from assms have "k \<in> set [0..<10]" by simp
  from digit_char_all [unfolded list_all_iff, THEN bspec, OF this]
  show "is_digit (digit_char k)" "digit_val (digit_char k) = k"
    "digit_char k = CHR ''0'' \<longleftrightarrow> k = 0"
    by blast+
qed

lemma digit_char_mod10:
  "is_digit (digit_char (n mod 10))" "digit_val (digit_char (n mod 10)) = n mod 10"
  by (rule digit_char_lt10, simp)+

lemma digits_all_digit: "list_all is_digit (digits n)"
  by (induction n rule: digits.induct) (subst digits.simps, simp add: digit_char_lt10 digit_char_mod10)

lemma digits_nonempty: "digits n \<noteq> []"
  by (subst digits.simps) simp

lemma hd_digits_zero: "hd (digits n) = CHR ''0'' \<longleftrightarrow> n = 0"
proof (induction n rule: digits.induct)
  case (1 n)
  show ?case
  proof (cases "n < 10")
    case True
    then show ?thesis by (subst digits.simps) (simp add: digit_char_lt10 digit_char_mod10)
  next
    case False
    then have "hd (digits n) = hd (digits (n div 10))"
      by (subst digits.simps) (simp add: digits_nonempty)
    with 1 False show ?thesis by simp
  qed
qed

lemma int_of_digits_snoc: "int_of_digits (ds @ [c]) = 10 * int_of_digits ds + digit_val c"
  by (simp add: int_of_digits_def)

lemma int_of_digits_digits: "int_of_digits (digits n) = n"
proof (induction n rule: digits.induct)
  case (1 n)
  show ?case
  proof (cases "n < 10")
    case True
    then show ?thesis by (subst digits.simps) (simp add: int_of_digits_def digit_char_lt10)
  next
    case False
    with 1 show ?thesis
      by (subst digits.simps) (simp add: int_of_digits_snoc digit_char_mod10)
  qed
qed

lemma value_end_no_digit:
  assumes "value_end rest"
  shows "\<not> has_frac rest" "\<not> has_exp rest" "rest = [] \<or> \<not> is_digit (hd rest)"
  using assms by (auto simp: value_end_def has_frac_def has_exp_def is_digit_def split: list.splits)

lemma takeWhile_digits:
  assumes "value_end rest" "list_all is_digit ds"
  shows "takeWhile is_digit (ds @ rest) = ds" "dropWhile is_digit (ds @ rest) = rest"
proof -
  have r: "takeWhile is_digit rest = []" "dropWhile is_digit rest = rest"
    using assms(1) by (auto simp: value_end_def is_digit_def split: list.splits)
  from assms(2) have "\<forall>x\<in>set ds. is_digit x" by (simp add: list_all_iff)
  then show "takeWhile is_digit (ds @ rest) = ds" "dropWhile is_digit (ds @ rest) = rest"
    using r by (simp_all add: takeWhile_append2 dropWhile_append2)
qed

lemma match_number_digits:
  assumes "value_end rest"
  shows "match_number (digits n @ rest) = Inr (PInt (int n), rest)"
proof -
  obtain c cs where cs: "digits n = c # cs" using digits_nonempty by (cases "digits n") auto
  have dig: "is_digit c" using digits_all_digit [of n] cs by simp
  have c0: "c = CHR ''0'' \<longleftrightarrow> n = 0" using hd_digits_zero [of n] cs by simp
  have cm: "c \<noteq> CHR ''-''" using dig by (auto simp: is_digit_def)
  show ?thesis
  proof (cases "n = 0")
    case True
    then have "digits n = ''0''" by (subst digits.simps) (simp add: digit_char_def)
    then show ?thesis using value_end_no_digit(1,2) [OF assms] True
      by (simp add: match_number_def finish_number_def int_of_digits_def digit_val_def)
  next
    case False
    have tw: "takeWhile is_digit (c # cs @ rest) = c # cs" "dropWhile is_digit (c # cs @ rest) = rest"
      using takeWhile_digits [OF assms digits_all_digit, of n] cs by simp_all
    have "int_of_digits (c # cs) = n" using int_of_digits_digits [of n] cs by simp
    then show ?thesis using False c0 cm dig tw value_end_no_digit(1,2) [OF assms] cs
      by (simp add: match_number_def finish_number_def del: takeWhile.simps dropWhile.simps)
  qed
qed

lemma match_number_neg_digits:
  assumes "value_end rest" "0 < n"
  shows "match_number (CHR ''-'' # digits n @ rest) = Inr (PInt (- int n), rest)"
proof -
  obtain c cs where cs: "digits n = c # cs" using digits_nonempty by (cases "digits n") auto
  have dig: "is_digit c" using digits_all_digit [of n] cs by simp
  have c0: "c \<noteq> CHR ''0''" using hd_digits_zero [of n] cs assms(2) by simp
  have tw: "takeWhile is_digit (c # cs @ rest) = c # cs" "dropWhile is_digit (c # cs @ rest) = rest"
    using takeWhile_digits [OF assms(1) digits_all_digit, of n] cs by simp_all
  have "int_of_digits (c # cs) = n" using int_of_digits_digits [of n] cs by simp
  then show ?thesis using c0 dig tw value_end_no_digit(1,2) [OF assms(1)] cs
    by (simp add: match_number_def finish_number_def del: takeWhile.simps dropWhile.simps)
qed

lemma match_number_int_repr:
  assumes "value_end rest"
  shows "match_number (int_repr i @ rest) = Inr (PInt i, rest)"
proof (cases "i < 0")
  case True
  then have "0 < nat (- i)" by simp
  from match_number_neg_digits [OF assms this] True show ?thesis
    by (simp add: int_repr_def)
next
  case False
  with match_number_digits [OF assms, of "nat i"] show ?thesis
    by (simp add: int_repr_def)
qed

section \<open>Parsing the encoding\<close>




















lemma value_end_sep: "value_end (sep level @ s)"
  by (simp add: value_end_def)











lemma sorted_value_scalar: "is_scalar v \<Longrightarrow> sorted_value v = v"
  by (cases v) (simp_all add: is_scalar_def)








lemma sorted_value_typed: "well_typed r \<Longrightarrow> sorted_record r = r"
  by (cases r) (auto simp: well_typed_def sorted_record_def split: pyval.splits)

section \<open>Saving\<close>


section \<open>The bound of the parser is never used up\<close>

lemma length_skip_ws: "length (skip_ws s) \<le> length s"
  by (simp add: skip_ws_def length_dropWhile_le)

lemma skip_ws_Cons_shorter: "skip_ws s = c # r \<Longrightarrow> length r < length s"
  using length_skip_ws [of s] by simp

lemma cons_result_Inr:
  "cons_result c x = Inr (str, r) \<Longrightarrow> \<exists>str'. x = Inr (str', r)"
  by (auto simp: cons_result_def split: sum.splits)

lemma scanstring_shorter: "scanstring s = Inr (x, r) \<Longrightarrow> length r < length s"
proof (induction s arbitrary: x rule: scanstring.induct)
  case 1
  then show ?case by simp
next
  case (2 c s)
  show ?case
  proof (cases "c = DQUOTE")
    case True
    with 2(4) show ?thesis by simp
  next
    case nq: False
    show ?thesis
    proof (cases "c = BACKSLASH")
      case True
      from 2(4) nq True obtain esc s' where s: "s = esc # s'" by (cases s) auto
      show ?thesis
      proof (cases "esc = CHR ''u''")
        case u: True
        from 2(4) nq True s u obtain uni where uni: "decode_uXXXX s' = Some uni" "uni < 256"
          by (auto split: option.splits if_splits)
        with 2(4) nq True s u obtain str' where "scanstring (drop 4 s') = Inr (str', r)"
          by (auto dest: cons_result_Inr)
        from 2(1) [OF nq True s u uni(1) uni(2) this] s show ?thesis by simp
      next
        case nu: False
        from 2(4) nq True s nu obtain ch where ch: "BACKSLASH_DCT esc = Some ch"
          by (auto split: option.splits)
        with 2(4) nq True s nu obtain str' where "scanstring s' = Inr (str', r)"
          by (auto dest: cons_result_Inr)
        from 2(2) [OF nq True s nu ch this] s show ?thesis by simp
      qed
    next
      case nb: False
      from 2(4) nq nb have c: "\<not> (of_char c :: nat) < 0x20" by (auto split: if_splits)
      with 2(4) nq nb obtain str' where "scanstring s = Inr (str', r)"
        by (auto dest: cons_result_Inr)
      from 2(3) [OF nq nb c this] show ?thesis by simp
    qed
  qed
qed

lemma finish_number_rest: "finish_number neg ds rest = Inr (v, r) \<Longrightarrow> r = rest"
  by (auto simp: finish_number_def split: if_splits)

lemma match_digits_shorter:
  assumes "(case s1 of
           [] \<Rightarrow> Inl ValueError
         | c # r \<Rightarrow>
             if c = CHR ''0'' then finish_number neg [c] r
             else if is_digit c then
               finish_number neg (takeWhile is_digit s1) (dropWhile is_digit s1)
             else Inl ValueError) = Inr (v, r)"
  shows "length r < length s1"
proof (cases s1)
  case Nil
  with assms show ?thesis by simp
next
  case (Cons c t)
  show ?thesis
  proof (cases "c = CHR ''0''")
    case True
    with assms Cons have "r = t" by (auto dest: finish_number_rest)
    with Cons show ?thesis by simp
  next
    case False
    with assms Cons have d: "is_digit c" by (auto split: if_splits)
    with assms Cons False have "r = dropWhile is_digit (c # t)"
      by (auto dest: finish_number_rest)
    with d have "length r \<le> length t" by (simp add: length_dropWhile_le)
    with Cons show ?thesis by simp
  qed
qed

lemma match_number_shorter: "match_number s = Inr (v, r) \<Longrightarrow> length r < length s"
proof -
  assume a: "match_number s = Inr (v, r)"
  let ?neg = "s \<noteq> [] \<and> hd s = CHR ''-''"
  let ?s1 = "if ?neg then tl s else s"
  from a have "length r < length ?s1"
    unfolding match_number_def Let_def by (rule match_digits_shorter)
  moreover have "length ?s1 \<le> length s" by simp
  ultimately show ?thesis by linarith
qed

lemma drop_shorter: "length (drop k s) < Suc (length s)"
  by simp

lemma scan_shorter:
  "(\<forall>s v r. scan_once n s = Inr (v, r) \<longrightarrow> length r < length s) \<and>
   (\<forall>s ps r. JSONObject n s = Inr (ps, r) \<longrightarrow> length r < length s) \<and>
   (\<forall>s vs r. JSONArray n s = Inr (vs, r) \<longrightarrow> length r < length s)"
proof (induction n)
  case 0
  show ?case by simp
next
  case (Suc n)
  then have ihs: "\<And>s v r. scan_once n s = Inr (v, r) \<Longrightarrow> length r < length s"
    and iho: "\<And>s ps r. JSONObject n s = Inr (ps, r) \<Longrightarrow> length r < length s"
    and iha: "\<And>s vs r. JSONArray n s = Inr (vs, r) \<Longrightarrow> length r < length s"
    by blast+
  have a: "length r < length s" if "scan_once (Suc n) s = Inr (v, r)" for s v r
  proof (cases s)
    case Nil
    with that show ?thesis by simp
  next
    case (Cons c t)
    consider (str) "c = DQUOTE" | (obj) "c \<noteq> DQUOTE" "c = CHR 0x7B"
      | (arr) "c \<noteq> DQUOTE" "c \<noteq> CHR 0x7B" "c = CHR 0x5B"
      | (other) "c \<noteq> DQUOTE" "c \<noteq> CHR 0x7B" "c \<noteq> CHR 0x5B" by blast
    then show ?thesis
    proof cases
      case str
      with that Cons show ?thesis
        by (auto split: sum.splits dest!: scanstring_shorter)
    next
      case obj
      with that Cons show ?thesis
        by (auto split: sum.splits list.splits if_splits
            dest!: skip_ws_Cons_shorter iho)
    next
      case arr
      with that Cons show ?thesis
        by (auto split: sum.splits list.splits if_splits
            dest!: skip_ws_Cons_shorter iha)
    next
      case other
      with that Cons have
        "(c = CHR ''n'' \<and> r = drop 3 t) \<or> (c = CHR ''t'' \<and> r = drop 3 t) \<or> (c = CHR ''f'' \<and> r = drop 4 t)
          \<or> match_number (c # t) = Inr (v, r)"
        by (auto split: if_splits)
      then show ?thesis using Cons
        by (auto dest!: match_number_shorter simp: less_Suc_eq_le)
    qed
  qed
  have b: "length r < length s" if "JSONObject (Suc n) s = Inr (ps, r)" for s ps r
  proof -
    from that obtain key s1 where 1: "scanstring s = Inr (key, s1)"
      by (auto split: sum.splits)
    with that obtain c s2 where 2: "skip_ws s1 = c # s2" "c = CHR '':''"
      by (auto split: list.splits if_splits)
    with that 1 obtain v s3 where 3: "scan_once n (skip_ws s2) = Inr (v, s3)"
      by (auto split: sum.splits)
    with that 1 2 obtain d s4 where 4: "skip_ws s3 = d # s4"
      by (auto split: list.splits)
    have l: "length s4 < length s"
      using scanstring_shorter [OF 1] skip_ws_Cons_shorter [OF 2(1)] ihs [OF 3]
        length_skip_ws [of s2] skip_ws_Cons_shorter [OF 4] by linarith
    show ?thesis
    proof (cases "d = CHR 0x7D")
      case True
      with that 1 2 3 4 have "r = s4" by simp
      with l show ?thesis by simp
    next
      case False
      with that 1 2 3 4 obtain q s5 where 5: "skip_ws s4 = q # s5"
        by (auto split: list.splits if_splits)
      with that 1 2 3 4 False obtain pairs where "JSONObject n s5 = Inr (pairs, r)"
        by (auto split: sum.splits if_splits)
      from iho [OF this] skip_ws_Cons_shorter [OF 5] l show ?thesis by linarith
    qed
  qed
  have c: "length r < length s" if "JSONArray (Suc n) s = Inr (vs, r)" for s vs r
  proof -
    from that obtain v s1 where 1: "scan_once n s = Inr (v, s1)"
      by (auto split: sum.splits)
    with that obtain d s2 where 2: "skip_ws s1 = d # s2"
      by (auto split: list.splits)
    have l: "length s2 < length s"
      using ihs [OF 1] skip_ws_Cons_shorter [OF 2] by linarith
    show ?thesis
    proof (cases "d = CHR 0x5D")
      case True
      with that 1 2 have "r = s2" by simp
      with l show ?thesis by simp
    next
      case False
      with that 1 2 obtain vals where "JSONArray n (skip_ws s2) = Inr (vals, r)"
        by (auto split: sum.splits if_splits)
      from iha [OF this] length_skip_ws [of s2] l show ?thesis by linarith
    qed
  qed
  from a b c show ?case by blast
qed

lemmas scan_once_shorter = scan_shorter [THEN conjunct1, rule_format]
lemmas JSONObject_shorter = scan_shorter [THEN conjunct2, THEN conjunct1, rule_format]
lemmas JSONArray_shorter = scan_shorter [THEN conjunct2, THEN conjunct2, rule_format]

lemma cons_result_fuel: "x \<noteq> Inl OutOfFuel \<Longrightarrow> cons_result c x \<noteq> Inl OutOfFuel"
  by (auto simp: cons_result_def split: sum.splits)

lemma scanstring_fuel: "scanstring s \<noteq> Inl OutOfFuel"
proof (induction s rule: scanstring.induct)
  case 1
  show ?case by simp
next
  case (2 c s)
  show ?case
  proof (cases "c = DQUOTE")
    case True
    then show ?thesis by simp
  next
    case nq: False
    show ?thesis
    proof (cases "c = BACKSLASH")
      case True
      show ?thesis
      proof (cases s)
        case Nil
        with nq True show ?thesis by simp
      next
        case (Cons esc s')
        show ?thesis
        proof (cases "esc = CHR ''u''")
          case u: True
          show ?thesis
          proof (cases "decode_uXXXX s'")
            case None
            with nq True Cons u show ?thesis by simp
          next
            case (Some uni)
            show ?thesis
            proof (cases "uni < 256")
              case lt: True
              from 2(1) [OF nq True Cons u Some lt] nq True Cons u Some lt show ?thesis
                by (simp add: cons_result_fuel)
            next
              case False
              with nq True Cons u Some show ?thesis by simp
            qed
          qed
        next
          case nu: False
          show ?thesis
          proof (cases "BACKSLASH_DCT esc")
            case None
            with nq True Cons nu show ?thesis by simp
          next
            case (Some ch)
            from 2(2) [OF nq True Cons nu Some] nq True Cons nu Some show ?thesis
              by (simp add: cons_result_fuel)
          qed
        qed
      qed
    next
      case nb: False
      show ?thesis
      proof (cases "(of_char c :: nat) < 0x20")
        case True
        with nq nb show ?thesis by simp
      next
        case False
        from 2(3) [OF nq nb False] nq nb False show ?thesis
          by (simp add: cons_result_fuel)
      qed
    qed
  qed
qed

lemma match_number_fuel: "match_number s \<noteq> Inl OutOfFuel"
  by (auto simp: match_number_def finish_number_def Let_def split: list.splits)


lemma scan_fuel:
  "(\<forall>s. 2 * length s < n \<longrightarrow> scan_once n s \<noteq> Inl OutOfFuel) \<and>
   (\<forall>s. 2 * length s < n \<longrightarrow> JSONObject n s \<noteq> Inl OutOfFuel) \<and>
   (\<forall>s. 2 * length s + 1 < n \<longrightarrow> JSONArray n s \<noteq> Inl OutOfFuel)"
proof (induction n)
  case 0
  show ?case by simp
next
  case (Suc n)
  then have ihs: "\<And>s. 2 * length s < n \<Longrightarrow> scan_once n s \<noteq> Inl OutOfFuel"
    and iho: "\<And>s. 2 * length s < n \<Longrightarrow> JSONObject n s \<noteq> Inl OutOfFuel"
    and iha: "\<And>s. 2 * length s + 1 < n \<Longrightarrow> JSONArray n s \<noteq> Inl OutOfFuel"
    by blast+
  have a: "scan_once (Suc n) s \<noteq> Inl OutOfFuel" if le: "2 * length s < Suc n" for s
  proof (cases s)
    case Nil
    then show ?thesis by simp
  next
    case (Cons c t)
    consider (str) "c = DQUOTE" | (obj) "c \<noteq> DQUOTE" "c = CHR 0x7B"
      | (arr) "c \<noteq> DQUOTE" "c \<noteq> CHR 0x7B" "c = CHR 0x5B"
      | (other) "c \<noteq> DQUOTE" "c \<noteq> CHR 0x7B" "c \<noteq> CHR 0x5B" by blast
    then show ?thesis
    proof cases
      case str
      with Cons scanstring_fuel [of t] show ?thesis
        by (auto split: sum.splits)
    next
      case obj
      show ?thesis
      proof (cases "skip_ws t")
        case Nil
        with Cons obj show ?thesis by simp
      next
        case (Cons d r)
        have "2 * length r < n"
          using skip_ws_Cons_shorter [OF Cons] le \<open>s = c # t\<close> by simp
        from iho [OF this] Cons obj \<open>s = c # t\<close> show ?thesis
          by (auto split: sum.splits)
      qed
    next
      case arr
      show ?thesis
      proof (cases "skip_ws t")
        case Nil
        with Cons arr show ?thesis by simp
      next
        case (Cons d r)
        have "length (d # r) \<le> length t" using length_skip_ws [of t] Cons by simp
        then have "2 * length (d # r) + 1 < n" using le \<open>s = c # t\<close> by simp
        from iha [OF this] Cons arr \<open>s = c # t\<close> show ?thesis
          by (auto split: sum.splits)
      qed
    next
      case other
      with Cons match_number_fuel [of "c # t"] show ?thesis by simp
    qed
  qed
  have b: "JSONObject (Suc n) s \<noteq> Inl OutOfFuel" if le: "2 * length s < Suc n" for s
  proof (cases "scanstring s")
    case (Inl e)
    with scanstring_fuel [of s] show ?thesis by simp
  next
    case (Inr ks)
    obtain key s1 where 1: "scanstring s = Inr (key, s1)" using Inr by (cases ks) simp
    show ?thesis
    proof (cases "skip_ws s1")
      case Nil
      with 1 show ?thesis by simp
    next
      case (Cons c s2)
      have l2: "length s2 + 2 \<le> length s"
        using scanstring_shorter [OF 1] skip_ws_Cons_shorter [OF Cons] by linarith
      show ?thesis
      proof (cases "c = CHR '':''")
        case False
        with 1 Cons show ?thesis by simp
      next
        case True
        have "2 * length (skip_ws s2) < n" using l2 le length_skip_ws [of s2] by linarith
        note f3 = ihs [OF this]
        show ?thesis
        proof (cases "scan_once n (skip_ws s2)")
          case (Inl e)
          with f3 1 Cons True show ?thesis by simp
        next
          case (Inr vs)
          obtain v s3 where 3: "scan_once n (skip_ws s2) = Inr (v, s3)" using Inr by (cases vs) simp
          have l3: "length s3 < length s2"
            using scan_once_shorter [OF 3] length_skip_ws [of s2] by linarith
          show ?thesis
          proof (cases "skip_ws s3")
            case Nil
            with 1 Cons True 3 show ?thesis by simp
          next
            case c4: (Cons d s4)
            show ?thesis
            proof (cases "skip_ws s4")
              case Nil
              with 1 Cons True 3 c4 show ?thesis by simp
            next
              case c5: (Cons q s5)
              have "2 * length s5 < n"
                using skip_ws_Cons_shorter [OF c5] skip_ws_Cons_shorter [OF c4] l3 l2 le by linarith
              from iho [OF this] 1 Cons True 3 c4 c5 show ?thesis
                by (auto split: sum.splits)
            qed
          qed
        qed
      qed
    qed
  qed
  have c: "JSONArray (Suc n) s \<noteq> Inl OutOfFuel" if le: "2 * length s + 1 < Suc n" for s
  proof -
    have "2 * length s < n" using le by simp
    note f1 = ihs [OF this]
    show ?thesis
    proof (cases "scan_once n s")
      case (Inl e)
      with f1 show ?thesis by simp
    next
      case (Inr vs)
      obtain v s1 where 1: "scan_once n s = Inr (v, s1)" using Inr by (cases vs) simp
      show ?thesis
      proof (cases "skip_ws s1")
        case Nil
        with 1 show ?thesis by simp
      next
        case (Cons d s2)
        have "2 * length (skip_ws s2) + 1 < n"
          using scan_once_shorter [OF 1] skip_ws_Cons_shorter [OF Cons] length_skip_ws [of s2] le
          by linarith
        from iha [OF this] 1 Cons show ?thesis
          by (auto split: sum.splits)
      qed
    qed
  qed
  from a b c show ?case by blast
qed

lemma json_loads_fuel: "json_loads s \<noteq> Inl OutOfFuel"
proof -
  have "2 * length (skip_ws s) < 2 * length s + 1" using length_skip_ws [of s] by simp
  with scan_fuel [of "2 * length s + 1"]
  have "scan_once (2 * length s + 1) (skip_ws s) \<noteq> Inl OutOfFuel" by blast
  then show ?thesis by (auto simp: json_loads_def split: sum.splits)
qed

section \<open>The claims\<close>



text \<open>
  C2. \<open>decode\<close> raises ValueError when \<open>json.loads\<close> rejects the text; it raises TypeError
  when the value parsed is not a dict, when one of the seven field names is not a key,
  and when a key is not a field name. When the keys are exactly the seven field names
  it returns a record that holds the value of each key, in whatever order the text
  lists the keys.
\<close>

theorem decode_strict:
  "(json_loads text = Inl ValueError \<longrightarrow> decode text = Inl ValueError) \<and>
   (json_loads text = Inr v \<and> (\<forall>kw. v \<noteq> PDict kw) \<longrightarrow> decode text = Inl TypeError) \<and>
   (json_loads text = Inr (PDict kw) \<and> f \<in> set RunData_fields \<and> f \<notin> fst ` set kw
      \<longrightarrow> decode text = Inl TypeError) \<and>
   (json_loads text = Inr (PDict kw) \<and> k \<in> fst ` set kw \<and> k \<notin> set RunData_fields
      \<longrightarrow> decode text = Inl TypeError) \<and>
   (json_loads text = Inr (PDict kw) \<and> fst ` set kw = set RunData_fields
      \<longrightarrow> (\<exists>r. decode text = Inr r \<and>
             list_all (\<lambda>f. map_of kw f = map_of (asdict r) f) RunData_fields))"
proof (intro conjI impI)
  assume "json_loads text = Inl ValueError"
  then show "decode text = Inl ValueError" by (simp add: decode_def)
next
  assume "json_loads text = Inr v \<and> (\<forall>kw. v \<noteq> PDict kw)"
  then show "decode text = Inl TypeError"
    by (cases v) (simp_all add: decode_def RunData_new_def)
next
  assume "json_loads text = Inr (PDict kw) \<and> f \<in> set RunData_fields \<and> f \<notin> fst ` set kw"
  then show "decode text = Inl TypeError"
    using RunData_new_missing [of f kw] by (simp add: decode_def)
next
  assume "json_loads text = Inr (PDict kw) \<and> k \<in> fst ` set kw \<and> k \<notin> set RunData_fields"
  then show "decode text = Inl TypeError"
    using RunData_new_unexpected [of k kw] by (simp add: decode_def)
next
  assume "json_loads text = Inr (PDict kw) \<and> fst ` set kw = set RunData_fields"
  then show "\<exists>r. decode text = Inr r \<and>
             list_all (\<lambda>f. map_of kw f = map_of (asdict r) f) RunData_fields"
    using RunData_new_exact [of kw] by (simp add: decode_def)
qed

theorem decode_strict_witness:
  "decode text_malformed = Inl ValueError \<and>
   decode text_array = Inl TypeError \<and>
   decode text_missing = Inl TypeError \<and>
   decode text_extra = Inl TypeError \<and>
   (\<exists>r. decode text_b = Inr r \<and>
      list_all (\<lambda>f. map_of dict_b f = map_of (asdict r) f) RunData_fields)"
proof -
  have "decode text_malformed = Inl ValueError"
    using decode_strict [of text_malformed] loads_text_malformed by simp
  moreover have "decode text_array = Inl TypeError"
    using decode_strict [of text_array "PList [PInt 1, PInt 2]"] loads_examples(1) by simp
  moreover have "decode text_missing = Inl TypeError"
    using decode_strict [of text_missing _ dict_missing "''pid''"] loads_examples(2)
    by (simp add: dict_missing_def RunData_fields_def)
  moreover have "decode text_extra = Inl TypeError"
    using decode_strict [of text_extra _ dict_extra _ "''owner''"] loads_examples(3)
    by (simp add: dict_extra_def RunData_fields_def)
  moreover have "\<exists>r. decode text_b = Inr r \<and>
      list_all (\<lambda>f. map_of dict_b f = map_of (asdict r) f) RunData_fields"
  proof -
    have "fst ` set dict_b = set RunData_fields"
      by (auto simp: dict_b_def RunData_fields_def)
    with decode_strict [of text_b _ dict_b] loads_examples(4) show ?thesis by simp
  qed
  ultimately show ?thesis by blast
qed

text \<open>
  C3, as the claim states it, fails: \<open>EnumerateRunDirectory\<close> does not sort. In a
  directory whose listing gives \<open>b\<close> before \<open>a\<close> the record of \<open>b\<close> comes first.
\<close>

theorem enumerate_listing_order:
  "EnumerateRunDirectory directory_ba ''run'' = Inr [record_b, record_a] \<and>
   EnumerateRunDirectory directory_ba ''run'' \<noteq> Inr [record_a, record_b]"
  by (simp add: EnumerateRunDirectory_def fs_ba join_run record_a_def record_b_def)

text \<open>
  C3, amended. When every regular file among the children loads,
  \<open>EnumerateRunDirectory\<close> returns one record for each regular file, in the order in
  which \<open>os.listdir\<close> lists the names, and none for the other children.
\<close>

theorem enumerate_regular_files:
  assumes "os_listdir fs directory = Inr names"
    and "\<forall>name\<in>set names. os_path_isfile fs (os_path_join directory name)
           \<longrightarrow> loads_ok fs (os_path_join directory name)"
  shows "EnumerateRunDirectory fs directory =
           Inr (map (\<lambda>path. projr (FromFile fs path))
                  (filter (os_path_isfile fs) (map (os_path_join directory) names)))"
proof -
  from assms(2)
  have "\<forall>p\<in>set (map (os_path_join directory) names). os_path_isfile fs p \<longrightarrow> loads_ok fs p"
    by auto
  from load_files_all [OF this] show ?thesis using assms(1)
    by (simp add: EnumerateRunDirectory_def)
qed

theorem enumerate_regular_files_witness:
  "os_listdir directory_ba ''run'' = Inr [''b'', ''a'', ''not-a-file''] \<and>
   EnumerateRunDirectory directory_ba ''run'' =
     Inr (map (\<lambda>path. projr (FromFile directory_ba path)) [''run/b'', ''run/a''])"
  using enumerate_regular_files [of directory_ba "''run''" "[''b'', ''a'', ''not-a-file'']"]
  by (simp add: fs_ba join_run loads_ok_def)

text \<open>
  C4. When a regular file among the children does not load, \<open>EnumerateRunDirectory\<close>
  returns no list: it raises the exception of the first such file in the order of the
  listing, which is the exception of the given file when no other regular file fails.
\<close>

theorem enumerate_fails:
  assumes "os_listdir fs directory = Inr names"
    and "name \<in> set names"
    and "os_path_isfile fs (os_path_join directory name)"
    and "FromFile fs (os_path_join directory name) = Inl e"
  shows "\<exists>pre bad post e'.
           names = pre @ bad # post \<and>
           list_all (\<lambda>n. os_path_isfile fs (os_path_join directory n)
                          \<longrightarrow> loads_ok fs (os_path_join directory n)) pre \<and>
           os_path_isfile fs (os_path_join directory bad) \<and>
           FromFile fs (os_path_join directory bad) = Inl e' \<and>
           EnumerateRunDirectory fs directory = Inl e' \<and>
           (list_all (\<lambda>n. n = name \<or> \<not> os_path_isfile fs (os_path_join directory n)
                            \<or> loads_ok fs (os_path_join directory n)) names \<longrightarrow> e' = e)"
proof -
  let ?j = "os_path_join directory"
  let ?bad = "\<lambda>n. os_path_isfile fs (?j n) \<and> \<not> loads_ok fs (?j n)"
  from assms(2-4) have "\<exists>n\<in>set names. ?bad n" by (auto simp: loads_ok_def)
  from split_list_first_prop [OF this]
  obtain pre bad post where sp: "names = pre @ bad # post" "?bad bad" "\<forall>y\<in>set pre. \<not> ?bad y"
    by blast
  from sp(2) obtain e' where e': "FromFile fs (?j bad) = Inl e'"
    by (auto simp: loads_ok_def split: sum.splits)
  have pre: "list_all (\<lambda>p. os_path_isfile fs p \<longrightarrow> loads_ok fs p) (map ?j pre)"
    using sp(3) by (auto simp: list_all_iff)
  from load_files_first_failure [OF pre _ e', of "map ?j post"] sp(2)
  have "load_files fs (map ?j names) = Inl e'" using sp(1) by simp
  then have en: "EnumerateRunDirectory fs directory = Inl e'"
    using assms(1) by (simp add: EnumerateRunDirectory_def)
  have "e' = e"
    if "list_all (\<lambda>n. n = name \<or> \<not> os_path_isfile fs (?j n) \<or> loads_ok fs (?j n)) names"
  proof -
    from that sp(1) have "bad = name \<or> \<not> os_path_isfile fs (?j bad) \<or> loads_ok fs (?j bad)"
      by (simp add: list_all_iff)
    with sp(2) have "bad = name" by blast
    with e' assms(4) show ?thesis by simp
  qed
  with sp e' en show ?thesis
    by (intro exI [of _ pre] exI [of _ bad] exI [of _ post] exI [of _ e'])
      (auto simp: list_all_iff)
qed

theorem enumerate_fails_witness:
  "EnumerateRunDirectory directory_bad ''run'' = Inl ValueError"
  using enumerate_fails [of directory_bad "''run''" "[''a'', ''bad'']" "''bad''" ValueError]
  by (auto simp: fs_bad join_run loads_ok_def)

text \<open>
  C5. The encoding of a record is an opening brace, seven lines joined by a comma and a
  newline, and a closing brace on a line of its own. Each line is four spaces, the key
  in double quotes, a colon, a space and the value. The keys are the field names in
  ascending order. The line of a scalar value holds no newline.
\<close>

theorem AsJson_format:
  "AsJson r =
     ''{'' @ [NEWLINE]
       @ join ('','' @ [NEWLINE])
           (map (\<lambda>kv. AsJson_line (fst kv) (snd kv))
              [(''cell_count'', cell_count r), (''http_host'', http_host r),
               (''http_port'', http_port r), (''pid'', pid r),
               (''station_name'', station_name r), (''test_type'', test_type r),
               (''test_version'', test_version r)])
       @ [NEWLINE] @ ''}''
   \<and> sort RunData_fields =
       [''cell_count'', ''http_host'', ''http_port'', ''pid'', ''station_name'',
        ''test_type'', ''test_version'']
   \<and> (is_scalar v \<and> NEWLINE \<notin> set key \<longrightarrow> NEWLINE \<notin> set (AsJson_line key v))"
proof -
  have "is_scalar v \<Longrightarrow> NEWLINE \<notin> set key \<Longrightarrow> NEWLINE \<notin> set (AsJson_line key v)"
    using scalar_no_newline [of v AsJson_encoder 1] by (simp add: AsJson_line_def)
  moreover have "sort RunData_fields =
       [''cell_count'', ''http_host'', ''http_port'', ''pid'', ''station_name'',
        ''test_type'', ''test_version'']"
    by (simp add: RunData_fields_def)
  ultimately show ?thesis using AsJson_layout by blast
qed

theorem AsJson_format_witness:
  "NEWLINE \<notin> set (AsJson_line ''http_host'' (PStr ''localhost''))"
  using AsJson_format [of record_a "PStr ''localhost''" "''http_host''"]
  by (simp add: is_scalar_def)





text \<open>
  C8. The claim holds and the code does not: for a process that exists and that the
  caller may not signal, \<open>os.kill\<close> raises OSError (EPERM) and \<open>IsAlive\<close> returns False.
\<close>

theorem IsAlive_existing_process_false:
  "1 \<in> existing init_of_root \<and> IsAlive init_of_root record_init = Inr False"
  by (simp add: IsAlive_def os_kill_0_def kill_0_def init_of_root_def record_init_def)



text \<open>
  C10. The reassignment of \<open>d['http_host']\<close> changes nothing: \<open>AsJson\<close> is the encoding
  of \<open>_asdict()\<close> with the same options.
\<close>

theorem AsJson_without_reassignment: "AsJson r = AsJson_direct r"
  by (simp add: AsJson_def AsJson_direct_def asdict_def)

end
